theory Spec2Isabelle
  imports Main "HOL-Library.AList"
begin

section \<open>Shallow embedding of \<open>embetter/utils.py\<close>\<close>

subsection \<open>The batch splitter \<open>batched\<close>\<close>

text \<open>
  \<^verbatim>\<open>
  def batched(iterable, n=64):
      if n < 1:
          raise ValueError("n must be at least one")
      it = iter(iterable)
      for batch in tuple(islice(it, n)):
          yield batch
  \<close>
  \<open>batched\<close> is a generator function. The model gives the outcome of running the generator to
  exhaustion: either the exception raised by the body, or the list of the values it yields, in
  order. The loop runs over the members of the one tuple \<open>tuple(islice(it, n))\<close> and yields
  each member; an exception of \<open>islice\<close> leaves the generator. The input stream is a finite
  list, the batch size a Python integer.
\<close>

datatype error = ValueError string

text \<open>
  \<open>sys.maxsize\<close>, the largest value of the interpreter's \<open>Py_ssize_t\<close>, on a 64-bit build.
\<close>

definition sys_maxsize :: int where
  "sys_maxsize = 2 ^ 63 - 1"

text \<open>
  \<open>itertools.islice(it, n)\<close> with a stop argument only, run to exhaustion. The library accepts
  an integer stop with \<open>0 <= n <= sys.maxsize\<close> and raises \<open>ValueError\<close> for any other: with
  the first message when the stop does not fit \<open>Py_ssize_t\<close> or is \<open>-1\<close>, with the second
  for the other negative stops.
\<close>

definition islice :: "'a list \<Rightarrow> int \<Rightarrow> error + 'a list" where
  "islice it n =
     (if n < - sys_maxsize - 1 \<or> sys_maxsize < n \<or> n = - 1 then
        Inl (ValueError
          ''Stop argument for islice() must be None or an integer: 0 <= x <= sys.maxsize.'')
      else if n < - 1 then
        Inl (ValueError
          ''Indices for islice() must be None or an integer: 0 <= x <= sys.maxsize.'')
      else Inr (take (nat n) it))"

definition batched :: "'a list \<Rightarrow> int \<Rightarrow> error + 'a list" where
  "batched iterable n =
     (if n < 1 then Inl (ValueError ''n must be at least one'')
      else (case islice iterable n of
              Inl e \<Rightarrow> Inl e
            | Inr batches \<Rightarrow> Inr batches))"

subsection \<open>The cache-aside wrapper \<open>cached\<close>\<close>

text \<open>
  A slot of the per-call result dictionary holds either the string sentinel \<open>"TODO"\<close> or a
  vector. Vectors are numeric arrays, whose \<open>str\<close> is never \<open>"TODO"\<close>, so the test
  \<open>str(x) == "TODO"\<close> of the source is the test for the constructor \<open>TODO\<close>.
\<close>

datatype 'v slot = TODO | Vec 'v

text \<open>
  The wrapped pipeline's \<open>transform\<close> is an opaque callable from a list of items to a sequence
  of vectors, which may raise: \<open>Inl e\<close> is the exception \<open>e\<close>.
\<close>

type_synonym ('k, 'v, 'e) pipeline_method = "'k list \<Rightarrow> 'e + 'v list"

text \<open>
  The disk cache is a durable mapping from items to vectors. To observe which calls a
  \<open>transform\<close> makes, the world also records a trace: one \<open>Transform\<close> event for every
  invocation of the wrapped pipeline's original \<open>transform\<close> (with its argument) and one
  \<open>SetEntry\<close> event for every \<open>reference.set(text, x_tfm)\<close>.
\<close>

datatype ('k, 'v) event = Transform "'k list" | SetEntry 'k 'v

record ('k, 'v) world =
  store :: "'k \<rightharpoonup> 'v"
  trace :: "('k, 'v) event list"

text \<open>
  \<^verbatim>\<open>
  def wrapped(X, y=None):
      results = {i: cache[x] if x in cache else "TODO" for i, x in enumerate(X)}
      text_todo = [X[i] for i, x in results.items() if str(x) == "TODO"]
      i_todo = [i for i, x in results.items() if str(x) == "TODO"]
      out = method(text_todo)
      with Cache(cache.directory) as reference:
          for i, text, x_tfm in zip(i_todo, text_todo, out):
              results[i] = x_tfm
              reference.set(text, x_tfm)
      return np.array([arr for i, arr in results.items()])
  \<close>
  The dictionary \<open>results\<close> is an association list in insertion order; \<open>results[i] = v\<close> is
  \<open>AList.update\<close>, which replaces the value of an existing key in place. \<open>cache\<close> and
  \<open>reference\<close> are two handles on the same directory, hence the same store. Every index
  \<open>i\<close> of \<open>results\<close> comes from \<open>enumerate(X)\<close>, so \<open>X[i]\<close> is in range.
\<close>

definition lookup_or_todo :: "('k, 'v) world \<Rightarrow> 'k \<Rightarrow> 'v slot" where
  "lookup_or_todo cache x = (case store cache x of Some v \<Rightarrow> Vec v | None \<Rightarrow> TODO)"

fun write_back ::
  "nat \<times> 'k \<times> 'v \<Rightarrow> (nat \<times> 'v slot) list \<times> ('k, 'v) world
     \<Rightarrow> (nat \<times> 'v slot) list \<times> ('k, 'v) world" where
  "write_back (i, text, x_tfm) (results, reference) =
     (AList.update i (Vec x_tfm) results,
      reference\<lparr>store := (store reference)(text \<mapsto> x_tfm),
                trace := trace reference @ [SetEntry text x_tfm]\<rparr>)"

definition wrapped ::
  "('k, 'v, 'e) pipeline_method \<Rightarrow> 'k list \<Rightarrow> ('k, 'v) world
     \<Rightarrow> ('e + 'v slot list) \<times> ('k, 'v) world" where
  "wrapped method X cache =
     (let results = map (\<lambda>(i, x). (i, lookup_or_todo cache x)) (enumerate 0 X);
          text_todo = map (\<lambda>(i, x). X ! i) (filter (\<lambda>(i, x). x = TODO) results);
          i_todo = map (\<lambda>(i, x). i) (filter (\<lambda>(i, x). x = TODO) results);
          called = cache\<lparr>trace := trace cache @ [Transform text_todo]\<rparr>
      in case method text_todo of
           Inl e \<Rightarrow> (Inl e, called)
         | Inr out \<Rightarrow>
             (case fold write_back (zip i_todo (zip text_todo out)) (results, called) of
                (results', reference) \<Rightarrow> (Inr (map snd results'), reference)))"

subsection \<open>The pipeline object and \<open>cached\<close>\<close>

text \<open>
  \<^verbatim>\<open>
  def cached(name, pipeline):
      cache = Cache(name)

      def run_cached(method):
          def wrapped(X, y=None):
              ...
          return wrapped

      pipeline.transform = run_cached(pipeline.transform)
      return pipeline
  \<close>
  A pipeline is an object on the heap, reached through a reference. Its \<open>transform\<close>
  attribute holds a callable: the pipeline's own \<open>transform\<close>, or a closure built by
  \<open>run_cached\<close>, which captures the cache opened under \<open>name\<close> and the callable it wraps.
  All other attributes of the object are kept by name.
\<close>

datatype ('k, 'v, 'e) callable =
  Original "('k, 'v, 'e) pipeline_method"
| RunCached string "('k, 'v, 'e) callable"

record ('k, 'v, 'e, 'a) pipeline_object =
  transform :: "('k, 'v, 'e) callable"
  attributes :: "string \<rightharpoonup> 'a"

type_synonym ('k, 'v, 'e, 'a) heap = "nat \<Rightarrow> ('k, 'v, 'e, 'a) pipeline_object"

definition run_cached :: "string \<Rightarrow> ('k, 'v, 'e) callable \<Rightarrow> ('k, 'v, 'e) callable" where
  "run_cached name method = RunCached name method"

definition cached ::
  "string \<Rightarrow> nat \<Rightarrow> ('k, 'v, 'e, 'a) heap \<Rightarrow> nat \<times> ('k, 'v, 'e, 'a) heap" where
  "cached name pipeline heap =
     (pipeline,
      heap(pipeline := (heap pipeline)\<lparr>transform := run_cached name (transform (heap pipeline))\<rparr>))"

text \<open>
  Calling a callable, on the disk (one store per directory name) and the trace. The pipeline's
  own \<open>transform\<close> returns its vectors and is recorded in the trace; the closure of
  \<open>run_cached\<close> around it runs \<open>wrapped\<close> on the store of its directory. A closure around
  another closure receives an array of slots as its \<open>out\<close>, for which the store of vectors has
  no value; this model gives no result (\<open>None\<close>) for such a call.
\<close>

fun call ::
  "('k, 'v, 'e) callable \<Rightarrow> 'k list \<Rightarrow> (string \<Rightarrow> ('k \<rightharpoonup> 'v)) \<times> ('k, 'v) event list
     \<Rightarrow> (('e + 'v slot list) \<times> (string \<Rightarrow> ('k \<rightharpoonup> 'v)) \<times> ('k, 'v) event list) option" where
  "call (Original m) X (dirs, tr) =
     Some ((case m X of Inl e \<Rightarrow> Inl e | Inr out \<Rightarrow> Inr (map Vec out)), dirs, tr @ [Transform X])"
| "call (RunCached name (Original m)) X (dirs, tr) =
     (case wrapped m X \<lparr>store = dirs name, trace = tr\<rparr> of
        (r, w) \<Rightarrow> Some (r, dirs(name := store w), trace w))"
| "call (RunCached name (RunCached n c)) X (dirs, tr) = None"

subsection \<open>Observing a call\<close>

text \<open>
  The events a call appends to the trace, the arguments of the invocations of the original
  \<open>transform\<close> among them, and the writes among them.
\<close>

definition new_events :: "('k, 'v) world \<Rightarrow> ('k, 'v) world \<Rightarrow> ('k, 'v) event list" where
  "new_events before after = drop (length (trace before)) (trace after)"

fun invocations :: "('k, 'v) event list \<Rightarrow> 'k list list" where
  "invocations [] = []"
| "invocations (Transform xs # es) = xs # invocations es"
| "invocations (SetEntry k v # es) = invocations es"

fun writes :: "('k, 'v) event list \<Rightarrow> ('k \<times> 'v) list" where
  "writes [] = []"
| "writes (Transform xs # es) = writes es"
| "writes (SetEntry k v # es) = (k, v) # writes es"

subsection \<open>The specification's view of one call\<close>

text \<open>
  The Miss List of the specification: the items absent from the store at call start, in their
  original relative order.
\<close>

definition misses :: "('k \<rightharpoonup> 'v) \<Rightarrow> 'k list \<Rightarrow> 'k list" where
  "misses s X = filter (\<lambda>x. s x = None) X"

text \<open>
  The assembled result of the specification: walking the items in order, a hit takes its vector
  from the store and a miss takes the next computed vector; a miss for which no computed vector
  is left stays pending.
\<close>

fun assemble :: "('k \<rightharpoonup> 'v) \<Rightarrow> 'k list \<Rightarrow> 'v list \<Rightarrow> 'v slot list" where
  "assemble s [] out = []"
| "assemble s (x # xs) out =
     (case s x of
        Some v \<Rightarrow> Vec v # assemble s xs out
      | None \<Rightarrow>
          (case out of
             [] \<Rightarrow> TODO # assemble s xs []
           | v # vs \<Rightarrow> Vec v # assemble s xs vs))"

text \<open>
  A pipeline in the sense of the specification: an opaque function from one item to its vector,
  applied item by item, which does not raise.
\<close>

definition pipeline_of :: "('k \<Rightarrow> 'v) \<Rightarrow> ('k, 'v, 'e) pipeline_method" where
  "pipeline_of f xs = Inr (map f xs)"

text \<open>
  A cache entry in the sense of the specification: the value stored for an item is the vector
  the pipeline produces for that item.
\<close>

definition produced_by :: "('k \<Rightarrow> 'v) \<Rightarrow> ('k \<rightharpoonup> 'v) \<Rightarrow> bool" where
  "produced_by f s = (\<forall>x v. s x = Some v \<longrightarrow> v = f x)"

text \<open>The initial result dictionary of \<open>wrapped\<close>, with the enumeration starting at \<open>n\<close>.\<close>

definition slots :: "('k, 'v) world \<Rightarrow> nat \<Rightarrow> 'k list \<Rightarrow> (nat \<times> 'v slot) list" where
  "slots cache n X = map (\<lambda>(i, x). (i, lookup_or_todo cache x)) (enumerate n X)"

subsection \<open>Sample pipelines\<close>

text \<open>The pipeline of the specification's scenario, \<open>len(x)\<close> as a one-element vector.\<close>

definition len_pipe :: "(string, int list, string) pipeline_method" where
  "len_pipe = pipeline_of (\<lambda>x. [int (length x)])"

text \<open>A pipeline whose \<open>transform\<close> raises on every batch.\<close>

definition failing_pipe :: "(string, int list, string) pipeline_method" where
  "failing_pipe xs = Inl ''upstream failure''"

text \<open>
  A deterministic pipeline that rejects the empty batch, and computes \<open>len(x)\<close> per item
  otherwise.
\<close>

definition strict_len_pipe :: "(string, int list, string) pipeline_method" where
  "strict_len_pipe xs =
     (if xs = [] then Inl ''empty batch'' else Inr (map (\<lambda>x. [int (length x)]) xs))"

text \<open>
  A deterministic pipeline whose vector for an item is the item's position in the batch.
\<close>

definition position_pipe :: "(string, int list, string) pipeline_method" where
  "position_pipe xs = Inr (map (\<lambda>i. [int i]) [0..<length xs])"

section \<open>Properties\<close>

subsection \<open>The result dictionary and the write-back loop\<close>

lemma slots_Nil: "slots cache n [] = []"
  by (simp add: slots_def)

lemma slots_Cons: "slots cache n (x # xs) = (n, lookup_or_todo cache x) # slots cache (Suc n) xs"
  by (simp add: slots_def)

lemma lookup_TODO_iff: "lookup_or_todo cache x = TODO \<longleftrightarrow> store cache x = None"
  by (simp add: lookup_or_todo_def split: option.splits)

lemma text_todo_shift:
  "(\<forall>j<length xs. Y ! (n + j) = xs ! j) \<Longrightarrow>
   map (\<lambda>(i, x). Y ! i) (filter (\<lambda>(i, x). x = TODO) (slots cache n xs)) = misses (store cache) xs"
proof (induction xs arbitrary: n)
  case Nil
  show ?case by (simp add: slots_Nil misses_def)
next
  case (Cons x xs)
  have hd: "Y ! n = x" using Cons.prems by (auto dest: spec [of _ 0])
  have "\<forall>j<length xs. Y ! (Suc n + j) = xs ! j"
  proof (intro allI impI)
    fix j assume "j < length xs"
    then have "Y ! (n + Suc j) = (x # xs) ! Suc j" using Cons.prems by (auto dest: spec [of _ "Suc j"])
    then show "Y ! (Suc n + j) = xs ! j" by simp
  qed
  then have IH: "map (\<lambda>(i, x). Y ! i) (filter (\<lambda>(i, x). x = TODO) (slots cache (Suc n) xs)) = misses (store cache) xs"
    by (rule Cons.IH)
  show ?case
    using IH hd by (simp add: slots_Cons lookup_TODO_iff misses_def)
qed

lemma text_todo_eq:
  "map (\<lambda>(i, x). X ! i) (filter (\<lambda>(i, x). x = TODO) (slots cache 0 X)) = misses (store cache) X"
  by (rule text_todo_shift) simp

lemma i_todo_length:
  "length (filter (\<lambda>(i, x). x = TODO) (slots cache n xs)) = length (misses (store cache) xs)"
  by (induction xs arbitrary: n) (simp_all add: slots_Nil slots_Cons lookup_TODO_iff misses_def)

lemma slots_keys_ge: "(i, s) \<in> set (slots cache n xs) \<Longrightarrow> n \<le> i"
proof (induction xs arbitrary: n)
  case Nil
  then show ?case by (simp add: slots_Nil)
next
  case (Cons x xs)
  from Cons.prems have "i = n \<or> (i, s) \<in> set (slots cache (Suc n) xs)"
    by (auto simp: slots_Cons)
  then show ?case
  proof
    assume "i = n" then show ?thesis by simp
  next
    assume "(i, s) \<in> set (slots cache (Suc n) xs)"
    then have "Suc n \<le> i" by (rule Cons.IH)
    then show ?thesis by simp
  qed
qed

lemma fold_update_Cons:
  "k \<notin> fst ` set ws \<Longrightarrow>
   fold (\<lambda>(i, t, v). AList.update i (Vec v)) ws ((k, s) # r) =
   (k, s) # fold (\<lambda>(i, t, v). AList.update i (Vec v)) ws r"
  by (induction ws arbitrary: r) auto

lemma fold_write_back:
  "fold write_back ws (r, w) =
   (fold (\<lambda>(i, t, v). AList.update i (Vec v)) ws r,
    w\<lparr>store := fold (\<lambda>(i, t, v) m. m(t \<mapsto> v)) ws (store w),
      trace := trace w @ map (\<lambda>(i, t, v). SetEntry t v) ws\<rparr>)"
  by (induction ws arbitrary: r w) auto

lemma assemble_slots:
  "map snd (fold (\<lambda>(i, t, v). AList.update i (Vec v))
      (zip (map fst (filter (\<lambda>(i, x). x = TODO) (slots cache n xs))) (zip (misses (store cache) xs) out))
      (slots cache n xs)) = assemble (store cache) xs out"
proof (induction xs arbitrary: n out)
  case Nil
  show ?case by (simp add: slots_Nil)
next
  case (Cons x xs)
  let ?I = "map fst (filter (\<lambda>(i, x). x = TODO) (slots cache (Suc n) xs))"
  have notin: "n \<notin> fst ` set (zip ?I ws)" for ws :: "('k \<times> 'v) list"
  proof
    assume "n \<in> fst ` set (zip ?I ws)"
    then have "n \<in> set ?I" by (auto dest: set_zip_leftD)
    then obtain s where "(n, s) \<in> set (slots cache (Suc n) xs)" by auto
    then show False by (auto dest: slots_keys_ge)
  qed
  show ?case
  proof (cases "store cache x")
    case (Some v)
    then have l: "lookup_or_todo cache x = Vec v" by (simp add: lookup_or_todo_def)
    show ?thesis
      using Some Cons.IH [of "Suc n" out]
      by (simp add: slots_Cons l misses_def fold_update_Cons [OF notin])
  next
    case None
    then have l: "lookup_or_todo cache x = TODO" by (simp add: lookup_or_todo_def)
    show ?thesis
    proof (cases out)
      case Nil
      then show ?thesis
        using None Cons.IH [of "Suc n" "[]"]
        by (simp add: slots_Cons l misses_def)
    next
      case (Cons v vs)
      then show ?thesis
        using None Cons.IH [of "Suc n" vs]
        by (simp add: slots_Cons l misses_def fold_update_Cons [OF notin])
    qed
  qed
qed

lemma fold_drop_index:
  "length is = length ts \<Longrightarrow>
   fold (\<lambda>(i, t, v). g t v) (zip is (zip ts vs)) = fold (\<lambda>(t, v). g t v) (zip ts vs)"
proof -
  assume len: "length is = length ts"
  have "map snd (zip is (zip ts vs)) = zip ts vs"
    using len by (simp add: map_snd_zip_take)
  then have "fold (\<lambda>(t, v). g t v) (zip ts vs) = fold (\<lambda>(t, v). g t v) (map snd (zip is (zip ts vs)))"
    by simp
  also have "\<dots> = fold ((\<lambda>(t, v). g t v) \<circ> snd) (zip is (zip ts vs))"
    by (simp only: fold_map)
  also have "(\<lambda>(t, v). g t v) \<circ> snd = (\<lambda>(i, t, v). g t v)"
    by (auto simp: fun_eq_iff)
  finally show ?thesis by simp
qed

lemma map_drop_index:
  "length is = length ts \<Longrightarrow>
   map (\<lambda>(i, t, v). h t v) (zip is (zip ts vs)) = map (\<lambda>(t, v). h t v) (zip ts vs)"
proof -
  assume len: "length is = length ts"
  have "map snd (zip is (zip ts vs)) = zip ts vs"
    using len by (simp add: map_snd_zip_take)
  then have "map (\<lambda>(t, v). h t v) (zip ts vs) = map (\<lambda>(t, v). h t v) (map snd (zip is (zip ts vs)))"
    by simp
  also have "\<dots> = map ((\<lambda>(t, v). h t v) \<circ> snd) (zip is (zip ts vs))"
    by simp
  also have "(\<lambda>(t, v). h t v) \<circ> snd = (\<lambda>(i, t, v). h t v)"
    by (auto simp: fun_eq_iff)
  finally show ?thesis by simp
qed

lemma fold_upd_map_upds:
  "fold (\<lambda>(t, v) m. m(t \<mapsto> v)) (zip ts vs) m = m(ts [\<mapsto>] vs)"
  by (simp add: map_upds_fold_map_upd foldl_conv_fold split_def)

subsection \<open>One call of \<open>wrapped\<close>, by outcome of the original \<open>transform\<close>\<close>

lemma wrapped_slots:
  "wrapped method X cache =
     (case method (map (\<lambda>(i, x). X ! i) (filter (\<lambda>(i, x). x = TODO) (slots cache 0 X))) of
        Inl e \<Rightarrow> (Inl e, cache\<lparr>trace := trace cache @
            [Transform (map (\<lambda>(i, x). X ! i) (filter (\<lambda>(i, x). x = TODO) (slots cache 0 X)))]\<rparr>)
      | Inr out \<Rightarrow>
          (case fold write_back
              (zip (map (\<lambda>(i, x). i) (filter (\<lambda>(i, x). x = TODO) (slots cache 0 X)))
                 (zip (map (\<lambda>(i, x). X ! i) (filter (\<lambda>(i, x). x = TODO) (slots cache 0 X))) out))
              (slots cache 0 X, cache\<lparr>trace := trace cache @
            [Transform (map (\<lambda>(i, x). X ! i) (filter (\<lambda>(i, x). x = TODO) (slots cache 0 X)))]\<rparr>) of
             (results', reference) \<Rightarrow> (Inr (map snd results'), reference)))"
  unfolding wrapped_def slots_def Let_def by (rule refl)

lemma wrapped_raises:
  assumes "method (misses (store cache) X) = Inl e"
  shows "wrapped method X cache =
    (Inl e, cache\<lparr>trace := trace cache @ [Transform (misses (store cache) X)]\<rparr>)"
  unfolding wrapped_slots text_todo_eq using assms by simp

lemma wrapped_returns:
  assumes "method (misses (store cache) X) = Inr out"
  shows "wrapped method X cache =
    (Inr (assemble (store cache) X out),
     cache\<lparr>store := (store cache)(misses (store cache) X [\<mapsto>] out),
           trace := trace cache @ Transform (misses (store cache) X)
                      # map (\<lambda>(t, v). SetEntry t v) (zip (misses (store cache) X) out)\<rparr>)"
proof -
  let ?M = "misses (store cache) X"
  let ?I = "map (\<lambda>(i, x). i) (filter (\<lambda>(i, x). x = TODO) (slots cache 0 X))"
  let ?called = "cache\<lparr>trace := trace cache @ [Transform ?M]\<rparr>"
  have I: "?I = map fst (filter (\<lambda>(i, x). x = TODO) (slots cache 0 X))"
    by (rule arg_cong [where f = "\<lambda>f. map f _"]) (simp add: fun_eq_iff)
  have len: "length ?I = length ?M"
    by (simp add: i_todo_length)
  have w: "wrapped method X cache =
    (case fold write_back (zip ?I (zip ?M out)) (slots cache 0 X, ?called) of
       (results', reference) \<Rightarrow> (Inr (map snd results'), reference))"
    unfolding wrapped_slots text_todo_eq using assms by simp
  have r: "map snd (fold (\<lambda>(i, t, v). AList.update i (Vec v)) (zip ?I (zip ?M out)) (slots cache 0 X))
      = assemble (store cache) X out"
    unfolding I by (rule assemble_slots)
  have s: "fold (\<lambda>(i, t, v) m. m(t \<mapsto> v)) (zip ?I (zip ?M out)) (store cache)
      = (store cache)(?M [\<mapsto>] out)"
    using fold_drop_index [OF len, of "\<lambda>t v m. m(t \<mapsto> v)" out]
    by (simp add: fold_upd_map_upds)
  have t: "map (\<lambda>(i, t, v). SetEntry t v) (zip ?I (zip ?M out))
      = map (\<lambda>(t, v). SetEntry t v) (zip ?M out)"
    using map_drop_index [OF len, of "\<lambda>t v. SetEntry t v" out] by simp
  have f: "fold write_back (zip ?I (zip ?M out)) (slots cache 0 X, ?called) =
     (fold (\<lambda>(i, t, v). AList.update i (Vec v)) (zip ?I (zip ?M out)) (slots cache 0 X),
      ?called\<lparr>store := fold (\<lambda>(i, t, v) m. m(t \<mapsto> v)) (zip ?I (zip ?M out)) (store ?called),
        trace := trace ?called @ map (\<lambda>(i, t, v). SetEntry t v) (zip ?I (zip ?M out))\<rparr>)"
    by (rule fold_write_back)
  have sc: "store ?called = store cache" and tc: "trace ?called = trace cache @ [Transform ?M]"
    by simp_all
  show ?thesis
    unfolding w f sc tc s t
    by (simp add: r)
qed

lemma new_events_append: "new_events w (w\<lparr>store := s, trace := trace w @ es\<rparr>) = es"
  by (simp add: new_events_def)

lemma new_events_append_trace: "new_events w (w\<lparr>trace := trace w @ es\<rparr>) = es"
  by (simp add: new_events_def)

lemma invocations_set_entries: "invocations (map (\<lambda>(t, v). SetEntry t v) ws) = []"
  by (induction ws) auto

lemma writes_set_entries: "writes (map (\<lambda>(t, v). SetEntry t v) ws) = ws"
  by (induction ws) auto

subsection \<open>The batch splitter\<close>

text \<open>
  C9 as stated fails. With \<open>n = 2^63\<close>, which is not below \<open>1\<close>, running \<open>batched(S, n)\<close>
  fails with a \<open>ValueError\<close>: the guard passes and \<open>islice\<close> rejects a stop above
  \<open>sys.maxsize\<close>.
\<close>

theorem batched_raises_above_maxsize:
  "batched [1, 2, 3 :: int] (2 ^ 63) =
     Inl (ValueError
       ''Stop argument for islice() must be None or an integer: 0 <= x <= sys.maxsize.'')
   \<and> \<not> ((2 :: int) ^ 63 < 1)"
  by (simp add: batched_def islice_def sys_maxsize_def)

text \<open>
  C9, amended. For every sequence \<open>S\<close>, running \<open>batched(S, n)\<close> fails with a \<open>ValueError\<close>
  exactly when \<open>n < 1\<close> or \<open>n > sys.maxsize\<close>; the function's own invalid-argument error is
  raised exactly when \<open>n < 1\<close>. In particular \<open>batched(S, 0)\<close> raises it, and
  \<open>batched([], 2)\<close> yields the empty sequence without error. (The function is a generator:
  the error surfaces when the generator is first advanced.)
\<close>

theorem batched_raises_iff:
  "((\<exists>msg. batched S n = Inl (ValueError msg)) \<longleftrightarrow> (n < 1 \<or> sys_maxsize < n))
   \<and> ((batched S n = Inl (ValueError ''n must be at least one'')) \<longleftrightarrow> n < 1)
   \<and> batched S 0 = Inl (ValueError ''n must be at least one'')
   \<and> batched ([] :: 'a list) 2 = Inr []"
  by (simp add: batched_def islice_def sys_maxsize_def)

text \<open>
  C3 (the code departs from the claim). On \<open>[1,2,3,4,5]\<close> with \<open>n = 2\<close> the generator yields
  the two members \<open>1\<close> and \<open>2\<close> of the first slice, one by one, and then stops: it yields no
  tuples, and the items \<open>3, 4, 5\<close> are never yielded, so the yielded values do not
  reconstruct the input.
\<close>

theorem batched_yields_first_slice_members:
  "batched [1, 2, 3, 4, 5 :: int] 2 = Inr [1, 2]"
  by (simp add: batched_def islice_def sys_maxsize_def)

subsection \<open>Failure of the wrapped pipeline\<close>

text \<open>
  C5. If the original \<open>transform\<close> raises \<open>e\<close> on the miss batch, the call raises the same
  \<open>e\<close> (no result array is returned), the store is exactly what it was at call start, and no
  write was performed: the only event of the call is the invocation of \<open>transform\<close>.
\<close>

theorem wrapped_failure_atomic:
  assumes "method (misses (store cache) X) = Inl e"
  shows "fst (wrapped method X cache) = Inl e
    \<and> store (snd (wrapped method X cache)) = store cache
    \<and> writes (new_events cache (snd (wrapped method X cache))) = []"
  using wrapped_raises [of "method" cache X e] assms
  by (simp add: new_events_append_trace)

theorem wrapped_failure_atomic_witness:
  "failing_pipe (misses (store \<lparr>store = [''a'' \<mapsto> [1]], trace = []\<rparr>) [''a'', ''bc''])
     = Inl ''upstream failure''
   \<and> fst (wrapped failing_pipe [''a'', ''bc''] \<lparr>store = [''a'' \<mapsto> [1]], trace = []\<rparr>)
     = Inl ''upstream failure''
   \<and> store (snd (wrapped failing_pipe [''a'', ''bc''] \<lparr>store = [''a'' \<mapsto> [1]], trace = []\<rparr>))
     = [''a'' \<mapsto> [1]]
   \<and> writes (new_events \<lparr>store = [''a'' \<mapsto> [1]], trace = []\<rparr>
        (snd (wrapped failing_pipe [''a'', ''bc''] \<lparr>store = [''a'' \<mapsto> [1]], trace = []\<rparr>))) = []"
proof -
  have h: "failing_pipe (misses (store \<lparr>store = [''a'' \<mapsto> [1]], trace = []\<rparr>) [''a'', ''bc''])
     = Inl ''upstream failure''"
    by (simp add: failing_pipe_def)
  show ?thesis
    using wrapped_failure_atomic [of failing_pipe "\<lparr>store = [''a'' \<mapsto> [1]], trace = []\<rparr>"
        "[''a'', ''bc'']" "''upstream failure''", OF h] h
    by simp
qed

subsection \<open>The assembled result and the store after the write-back\<close>

lemma length_assemble: "length (assemble s X out) = length X"
  by (induction X arbitrary: out) (auto split: option.splits list.splits)

lemma misses_Cons_hit: "s x = Some v \<Longrightarrow> misses s (x # xs) = misses s xs"
  by (simp add: misses_def)

lemma misses_Cons_miss: "s x = None \<Longrightarrow> misses s (x # xs) = x # misses s xs"
  by (simp add: misses_def)

lemma assemble_nth:
  "length (misses s X) \<le> length out \<Longrightarrow> i < length X \<Longrightarrow>
   assemble s X out ! i =
     (case s (X ! i) of
        Some v \<Rightarrow> Vec v
      | None \<Rightarrow> Vec (out ! length (misses s (take i X))))"
proof (induction X arbitrary: out i)
  case Nil
  then show ?case by simp
next
  case (Cons x xs)
  show ?case
  proof (cases "s x")
    case (Some v)
    then have m: "length (misses s xs) \<le> length out"
      using Cons.prems(1) by (simp add: misses_Cons_hit)
    show ?thesis
    proof (cases i)
      case 0
      then show ?thesis using Some by (simp add: misses_def)
    next
      case (Suc j)
      then have "j < length xs" using Cons.prems(2) by simp
      from Cons.IH [OF m this] show ?thesis
        using Some unfolding Suc by (simp add: misses_Cons_hit cong: option.case_cong)
    qed
  next
    case None
    then obtain v vs where out: "out = v # vs" and m: "length (misses s xs) \<le> length vs"
      using Cons.prems(1) by (cases out) (auto simp: misses_Cons_miss)
    show ?thesis
    proof (cases i)
      case 0
      then show ?thesis using None out by (simp add: misses_def)
    next
      case (Suc j)
      then have "j < length xs" using Cons.prems(2) by simp
      from Cons.IH [OF m this] show ?thesis
        using None unfolding Suc out by (simp add: misses_Cons_miss cong: option.case_cong)
    qed
  qed
qed

lemma assemble_pipeline:
  "produced_by f s \<Longrightarrow> assemble s X (map f (misses s X)) = map (\<lambda>x. Vec (f x)) X"
proof (induction X)
  case Nil
  show ?case by simp
next
  case (Cons x xs)
  show ?case
  proof (cases "s x")
    case None
    then show ?thesis using Cons by (simp add: misses_Cons_miss)
  next
    case (Some v)
    then have "v = f x" using Cons.prems by (simp add: produced_by_def)
    then show ?thesis using Some Cons by (simp add: misses_Cons_hit)
  qed
qed

lemma map_upds_last_wins:
  "j < length ks \<Longrightarrow> length ks \<le> length vs \<Longrightarrow>
   (\<forall>j'. j < j' \<and> j' < length ks \<longrightarrow> ks ! j' \<noteq> ks ! j) \<Longrightarrow>
   (m(ks [\<mapsto>] vs)) (ks ! j) = Some (vs ! j)"
proof (induction ks arbitrary: m vs j)
  case Nil
  then show ?case by simp
next
  case (Cons k ks)
  then obtain v vs' where vs: "vs = v # vs'" and len: "length ks \<le> length vs'"
    by (cases vs) auto
  show ?case
  proof (cases j)
    case 0
    have "k \<notin> set ks"
    proof
      assume "k \<in> set ks"
      then obtain i where "i < length ks" "ks ! i = k" by (auto simp: in_set_conv_nth)
      then have "(k # ks) ! Suc i = (k # ks) ! j" "j < Suc i" "Suc i < length (k # ks)"
        using 0 by auto
      with Cons.prems(3) show False by blast
    qed
    then show ?thesis using 0 vs by (simp add: map_upds_apply_nontin)
  next
    case (Suc i)
    then have i: "i < length ks" using Cons.prems(1) by simp
    have later: "\<forall>j'. i < j' \<and> j' < length ks \<longrightarrow> ks ! j' \<noteq> ks ! i"
    proof (intro allI impI)
      fix j' assume "i < j' \<and> j' < length ks"
      then have "j < Suc j' \<and> Suc j' < length (k # ks)" using Suc by simp
      with Cons.prems(3) have "(k # ks) ! Suc j' \<noteq> (k # ks) ! j" by blast
      then show "ks ! j' \<noteq> ks ! i" using Suc by simp
    qed
    have "((m(k \<mapsto> v))(ks [\<mapsto>] vs')) (ks ! i) = Some (vs' ! i)"
      by (rule Cons.IH [OF i len later])
    then show ?thesis
      unfolding Suc vs by (simp only: map_upds_Cons nth_Cons_Suc)
  qed
qed

lemma map_upds_pipeline:
  "(m(ks [\<mapsto>] map f ks)) x = (if x \<in> set ks then Some (f x) else m x)"
proof (induction ks arbitrary: m)
  case Nil
  show ?case by simp
next
  case (Cons k ks)
  have IH: "((m(k \<mapsto> f k))(ks [\<mapsto>] map f ks)) x
      = (if x \<in> set ks then Some (f x) else (m(k \<mapsto> f k)) x)"
    by (rule Cons)
  have "(m(k # ks [\<mapsto>] map f (k # ks))) x = ((m(k \<mapsto> f k))(ks [\<mapsto>] map f ks)) x"
    by (simp only: list.map map_upds_Cons)
  also have "\<dots> = (if x \<in> set (k # ks) then Some (f x) else m x)"
    unfolding IH by auto
  finally show ?case .
qed

lemma produced_by_empty: "produced_by f Map.empty"
  by (simp add: produced_by_def)

lemma produced_by_upds: "produced_by f s \<Longrightarrow> produced_by f (s(ks [\<mapsto>] map f ks))"
  by (simp add: produced_by_def map_upds_pipeline)

lemma count_misses: "s x = None \<Longrightarrow> count_list (misses s X) x = count_list X x"
  by (induction X) (auto simp: misses_def)

lemma invocations_of_call:
  "invocations (new_events cache (snd (wrapped method X cache))) = [misses (store cache) X]"
proof (cases "method (misses (store cache) X)")
  case (Inl e)
  show ?thesis
    unfolding wrapped_raises [of "method" cache X e, OF Inl]
    by (simp add: new_events_append_trace)
next
  case (Inr out)
  show ?thesis
    unfolding wrapped_returns [of "method" cache X out, OF Inr]
    by (simp add: new_events_append invocations_set_entries)
qed

lemma result_of_call:
  assumes "method (misses (store cache) X) = Inr out"
    and "length out = length (misses (store cache) X)"
  shows "\<exists>res. fst (wrapped method X cache) = Inr res \<and> length res = length X
    \<and> (\<forall>i<length X. res ! i =
          (case store cache (X ! i) of
             Some v \<Rightarrow> Vec v
           | None \<Rightarrow> Vec (out ! length (misses (store cache) (take i X)))))"
proof -
  have "fst (wrapped method X cache) = Inr (assemble (store cache) X out)"
    by (simp add: wrapped_returns [of "method" cache X out, OF assms(1)])
  moreover have "length (assemble (store cache) X out) = length X"
    by (rule length_assemble)
  moreover have "\<forall>i<length X. assemble (store cache) X out ! i =
          (case store cache (X ! i) of
             Some v \<Rightarrow> Vec v
           | None \<Rightarrow> Vec (out ! length (misses (store cache) (take i X))))"
    using assms(2) by (simp add: assemble_nth)
  ultimately show ?thesis by blast
qed

subsection \<open>Which items reach the wrapped pipeline\<close>

text \<open>
  C7 as stated fails. With the store holding \<open>"ab"\<close> and the input \<open>["ab"]\<close> every item is a
  hit and the Miss List is empty, yet the original \<open>transform\<close> is invoked: \<open>out =
  method(text_todo)\<close> runs unconditionally, here on the empty list.
\<close>

theorem all_hits_still_invoke_transform:
  "misses (store \<lparr>store = [''ab'' \<mapsto> [2]], trace = []\<rparr>) [''ab''] = []
   \<and> invocations (new_events \<lparr>store = [''ab'' \<mapsto> [2]], trace = []\<rparr>
        (snd (wrapped len_pipe [''ab''] \<lparr>store = [''ab'' \<mapsto> [2]], trace = []\<rparr>))) = [[]]"
  by (simp add: wrapped_def len_pipe_def pipeline_of_def lookup_or_todo_def misses_def
      new_events_def)

text \<open>
  C7, amended. Every call of the wrapped \<open>transform\<close> invokes the original \<open>transform\<close>
  exactly once, on the Miss List: the items absent from the store at call start, in their
  original order (the empty list when every item is a hit). No hit item is ever passed.
\<close>

theorem transform_invoked_once_on_misses:
  "invocations (new_events cache (snd (wrapped method X cache))) = [misses (store cache) X]
   \<and> misses (store cache) X = filter (\<lambda>x. x \<notin> dom (store cache)) X"
  by (simp add: invocations_of_call misses_def domIff)

theorem transform_invoked_once_on_misses_witness:
  "invocations (new_events \<lparr>store = [''ab'' \<mapsto> [2]], trace = []\<rparr>
        (snd (wrapped len_pipe [''ab'', ''abc'', ''ab''] \<lparr>store = [''ab'' \<mapsto> [2]], trace = []\<rparr>)))
     = [[''abc'']]"
  using transform_invoked_once_on_misses
    [of "\<lparr>store = [''ab'' \<mapsto> [2]], trace = []\<rparr>" len_pipe "[''ab'', ''abc'', ''ab'']"]
  by (simp add: misses_def)

text \<open>
  C2. Let \<open>out\<close> be what the original \<open>transform\<close> returns on the miss batch, one vector per
  miss item. Then the original \<open>transform\<close> was invoked once, on exactly the items absent from
  the store at call start, in their original relative order; the result has one slot per input
  item; a hit index carries the cached vector, and a miss index carries the vector computed for
  that miss (the \<open>k\<close>-th computed vector for the \<open>k\<close>-th miss). The witness is the scenario
  \<open>[A, B, C]\<close> with \<open>A\<close> and \<open>C\<close> pre-seeded.
\<close>

theorem partial_hits_forward_only_misses:
  assumes "method (misses (store cache) X) = Inr out"
    and "length out = length (misses (store cache) X)"
  shows "invocations (new_events cache (snd (wrapped method X cache)))
      = [filter (\<lambda>x. store cache x = None) X]
    \<and> (\<exists>res. fst (wrapped method X cache) = Inr res \<and> length res = length X
        \<and> (\<forall>i<length X. res ! i =
              (case store cache (X ! i) of
                 Some v \<Rightarrow> Vec v
               | None \<Rightarrow> Vec (out ! length (filter (\<lambda>x. store cache x = None) (take i X))))))"
  using result_of_call [of "method" cache X out, OF assms]
    invocations_of_call [of cache "method" X]
  unfolding misses_def by blast

theorem partial_hits_forward_only_misses_witness:
  "len_pipe (misses (store (\<lparr>store = [''A'' \<mapsto> [10], ''C'' \<mapsto> [30]], trace = []\<rparr>
        :: (string, int list) world)) [''A'', ''B'', ''C'']) = Inr [[1]]
   \<and> invocations (new_events \<lparr>store = [''A'' \<mapsto> [10], ''C'' \<mapsto> [30]], trace = []\<rparr>
        (snd (wrapped len_pipe [''A'', ''B'', ''C'']
           \<lparr>store = [''A'' \<mapsto> [10], ''C'' \<mapsto> [30]], trace = []\<rparr>))) = [[''B'']]
   \<and> (\<exists>res. fst (wrapped len_pipe [''A'', ''B'', ''C'']
           \<lparr>store = [''A'' \<mapsto> [10], ''C'' \<mapsto> [30]], trace = []\<rparr>) = Inr res
        \<and> length res = 3 \<and> res ! 0 = Vec [10] \<and> res ! 1 = Vec [1] \<and> res ! 2 = Vec [30])"
proof -
  let ?w = "\<lparr>store = [''A'' \<mapsto> [10::int], ''C'' \<mapsto> [30]], trace = []\<rparr> :: (string, int list) world"
  let ?X = "[''A'', ''B'', ''C'']"
  have h1: "len_pipe (misses (store ?w) ?X) = Inr [[1]]"
    by (simp add: len_pipe_def pipeline_of_def misses_def)
  have h2: "length [[1::int]] = length (misses (store ?w) ?X)"
    by (simp add: misses_def)
  note t = partial_hits_forward_only_misses [of len_pipe ?w ?X "[[1]]", OF h1 h2]
  from t have inv: "invocations (new_events ?w (snd (wrapped len_pipe ?X ?w))) = [[''B'']]"
    by simp
  from t obtain res where r: "fst (wrapped len_pipe ?X ?w) = Inr res" "length res = length ?X"
    and nth: "\<forall>i<length ?X. res ! i =
              (case store ?w (?X ! i) of
                 Some v \<Rightarrow> Vec v
               | None \<Rightarrow> Vec ([[1]] ! length (filter (\<lambda>x. store ?w x = None) (take i ?X))))"
    by blast
  have "res ! 0 = Vec [10]" using nth [rule_format, of 0] by simp
  moreover have "res ! 1 = Vec [1]" using nth [rule_format, of 1] by simp
  moreover have "res ! 2 = Vec [30]" using nth [rule_format, of 2] by simp
  ultimately show ?thesis using h1 inv r by simp
qed

subsection \<open>Write-back\<close>

lemma last_occurrence:
  "x \<in> set ks \<Longrightarrow>
   \<exists>j<length ks. ks ! j = x \<and> (\<forall>j'. j < j' \<and> j' < length ks \<longrightarrow> ks ! j' \<noteq> ks ! j)"
proof (induction ks rule: rev_induct)
  case Nil
  then show ?case by simp
next
  case (snoc k ks)
  show ?case
  proof (cases "k = x")
    case True
    then have "(ks @ [k]) ! length ks = x" by simp
    then show ?thesis by (intro exI [of _ "length ks"]) auto
  next
    case False
    then have "x \<in> set ks" using snoc.prems by simp
    then obtain j where j: "j < length ks" "ks ! j = x"
      and later: "\<forall>j'. j < j' \<and> j' < length ks \<longrightarrow> ks ! j' \<noteq> ks ! j"
      using snoc.IH by blast
    have "(ks @ [k]) ! j = x" using j by (simp add: nth_append)
    moreover have "\<forall>j'. j < j' \<and> j' < length (ks @ [k]) \<longrightarrow> (ks @ [k]) ! j' \<noteq> (ks @ [k]) ! j"
    proof (intro allI impI)
      fix j' assume a: "j < j' \<and> j' < length (ks @ [k])"
      show "(ks @ [k]) ! j' \<noteq> (ks @ [k]) ! j"
      proof (cases "j' < length ks")
        case True
        then show ?thesis using later a j by (simp add: nth_append)
      next
        case False
        then have "j' = length ks" using a by simp
        then show ?thesis using \<open>k \<noteq> x\<close> j by (simp add: nth_append)
      qed
    qed
    ultimately show ?thesis using j by (intro exI [of _ j]) auto
  qed
qed

lemma store_after_call:
  assumes "method (misses (store cache) X) = Inr out"
  shows "store (snd (wrapped method X cache)) = (store cache)(misses (store cache) X [\<mapsto>] out)"
  by (simp add: wrapped_returns [of "method" cache X out, OF assms])

lemma trace_after_call:
  assumes "method (misses (store cache) X) = Inr out"
  shows "trace (snd (wrapped method X cache)) =
    trace cache @ Transform (misses (store cache) X)
      # map (\<lambda>(t, v). SetEntry t v) (zip (misses (store cache) X) out)"
  by (simp add: wrapped_returns [of "method" cache X out, OF assms])

lemma writes_of_call:
  assumes "method (misses (store cache) X) = Inr out"
  shows "writes (new_events cache (snd (wrapped method X cache))) = zip (misses (store cache) X) out"
  by (simp add: wrapped_returns [of "method" cache X out, OF assms] new_events_append
      writes_set_entries)

text \<open>
  C4. Let \<open>out\<close> be what the original \<open>transform\<close> returns on the miss batch, one vector per
  miss item. Then the call performs one write for every entry of the Miss List, in order, each
  pairing the miss item with the vector computed for it; the store after the call is the store
  at call start overwritten by these writes, the later write winning for a repeated key. So
  every item that was a miss is present afterwards, mapped to the vector computed for its last
  occurrence in the Miss List, and every other key is untouched.
\<close>

theorem write_back_every_miss:
  assumes "method (misses (store cache) X) = Inr out"
    and "length out = length (misses (store cache) X)"
  shows "writes (new_events cache (snd (wrapped method X cache))) = zip (misses (store cache) X) out
    \<and> store (snd (wrapped method X cache)) = (store cache)(misses (store cache) X [\<mapsto>] out)
    \<and> (\<forall>x \<in> set (misses (store cache) X).
          \<exists>j<length (misses (store cache) X). misses (store cache) X ! j = x
            \<and> (\<forall>j'. j < j' \<and> j' < length (misses (store cache) X)
                  \<longrightarrow> misses (store cache) X ! j' \<noteq> x)
            \<and> store (snd (wrapped method X cache)) x = Some (out ! j))
    \<and> (\<forall>x. x \<notin> set (misses (store cache) X)
          \<longrightarrow> store (snd (wrapped method X cache)) x = store cache x)"
proof -
  let ?M = "misses (store cache) X"
  let ?s' = "store (snd (wrapped method X cache))"
  have s': "?s' = (store cache)(?M [\<mapsto>] out)"
    by (rule store_after_call [of "method" cache X out, OF assms(1)])
  have last: "\<forall>x \<in> set ?M. \<exists>j<length ?M. ?M ! j = x
      \<and> (\<forall>j'. j < j' \<and> j' < length ?M \<longrightarrow> ?M ! j' \<noteq> x) \<and> ?s' x = Some (out ! j)"
  proof
    fix x assume "x \<in> set ?M"
    then obtain j where j: "j < length ?M" "?M ! j = x"
      and later: "\<forall>j'. j < j' \<and> j' < length ?M \<longrightarrow> ?M ! j' \<noteq> ?M ! j"
      using last_occurrence [of x ?M] by blast
    have "((store cache)(?M [\<mapsto>] out)) (?M ! j) = Some (out ! j)"
      using j(1) assms(2) later by (intro map_upds_last_wins) simp_all
    then have "?s' x = Some (out ! j)" using s' j(2) by simp
    then show "\<exists>j<length ?M. ?M ! j = x
      \<and> (\<forall>j'. j < j' \<and> j' < length ?M \<longrightarrow> ?M ! j' \<noteq> x) \<and> ?s' x = Some (out ! j)"
      using j later by blast
  qed
  have frame: "\<forall>x. x \<notin> set ?M \<longrightarrow> ?s' x = store cache x"
    using s' by (simp add: map_upds_apply_nontin)
  show ?thesis
    using writes_of_call [of "method" cache X out, OF assms(1)] s' last frame by blast
qed

theorem write_back_every_miss_witness:
  "len_pipe (misses (store (\<lparr>store = Map.empty, trace = []\<rparr> :: (string, int list) world))
      [''ab'', ''abc'', ''ab'']) = Inr [[2], [3], [2]]
   \<and> writes (new_events \<lparr>store = Map.empty, trace = []\<rparr>
        (snd (wrapped len_pipe [''ab'', ''abc'', ''ab''] \<lparr>store = Map.empty, trace = []\<rparr>)))
      = [(''ab'', [2]), (''abc'', [3]), (''ab'', [2])]
   \<and> store (snd (wrapped len_pipe [''ab'', ''abc'', ''ab''] \<lparr>store = Map.empty, trace = []\<rparr>)) ''ab''
      = Some [2]
   \<and> store (snd (wrapped len_pipe [''ab'', ''abc'', ''ab''] \<lparr>store = Map.empty, trace = []\<rparr>)) ''abc''
      = Some [3]"
proof -
  let ?w = "\<lparr>store = Map.empty, trace = []\<rparr> :: (string, int list) world"
  let ?X = "[''ab'', ''abc'', ''ab'']"
  have h1: "len_pipe (misses (store ?w) ?X) = Inr [[2], [3], [2]]"
    by (simp add: len_pipe_def pipeline_of_def misses_def)
  have h2: "length [[2], [3], [2::int]] = length (misses (store ?w) ?X)"
    by (simp add: misses_def)
  note t = write_back_every_miss [of len_pipe ?w ?X "[[2], [3], [2]]", OF h1 h2]
  from t have w: "writes (new_events ?w (snd (wrapped len_pipe ?X ?w)))
      = [(''ab'', [2]), (''abc'', [3]), (''ab'', [2])]"
    by (simp add: misses_def)
  from t have s: "store (snd (wrapped len_pipe ?X ?w))
      = (store ?w)(misses (store ?w) ?X [\<mapsto>] [[2], [3], [2]])"
    by blast
  have "store (snd (wrapped len_pipe ?X ?w)) ''ab'' = Some [2]"
    unfolding s by (simp add: misses_def)
  moreover have "store (snd (wrapped len_pipe ?X ?w)) ''abc'' = Some [3]"
    unfolding s by (simp add: misses_def)
  ultimately show ?thesis using h1 w by simp
qed

subsection \<open>Duplicate items within one call\<close>

text \<open>
  C8. Let \<open>x\<close> be absent from the store at call start, and let \<open>out\<close> be what the original
  \<open>transform\<close> returns on the miss batch, one vector per miss item. Then \<open>x\<close> occurs in the
  batch passed to \<open>transform\<close> as often as it occurs in the input (no deduplication); the call
  is one invocation of \<open>transform\<close> followed by the writes, none before it; and at every index
  where the input holds \<open>x\<close> the result carries the vector computed for that occurrence.
\<close>

theorem duplicate_misses_all_forwarded:
  assumes "store cache x = None"
    and "method (misses (store cache) X) = Inr out"
    and "length out = length (misses (store cache) X)"
  shows "invocations (new_events cache (snd (wrapped method X cache))) = [misses (store cache) X]
    \<and> count_list (misses (store cache) X) x = count_list X x
    \<and> trace (snd (wrapped method X cache)) =
        trace cache @ Transform (misses (store cache) X)
          # map (\<lambda>(t, v). SetEntry t v) (zip (misses (store cache) X) out)
    \<and> (\<exists>res. fst (wrapped method X cache) = Inr res \<and> length res = length X
        \<and> (\<forall>i<length X. X ! i = x
              \<longrightarrow> res ! i = Vec (out ! length (misses (store cache) (take i X)))))"
proof -
  obtain res where r: "fst (wrapped method X cache) = Inr res" "length res = length X"
    and nth: "\<forall>i<length X. res ! i =
          (case store cache (X ! i) of
             Some v \<Rightarrow> Vec v
           | None \<Rightarrow> Vec (out ! length (misses (store cache) (take i X))))"
    using result_of_call [of "method" cache X out, OF assms(2) assms(3)] by blast
  have "\<forall>i<length X. X ! i = x
      \<longrightarrow> res ! i = Vec (out ! length (misses (store cache) (take i X)))"
    using nth assms(1) by auto
  then show ?thesis
    using r invocations_of_call [of cache "method" X] count_misses [of "store cache" x X, OF assms(1)]
      trace_after_call [of "method" cache X out, OF assms(2)]
    by blast
qed

theorem duplicate_misses_all_forwarded_witness:
  "store (\<lparr>store = Map.empty, trace = []\<rparr> :: (string, int list) world) ''ab'' = None
   \<and> len_pipe (misses (store (\<lparr>store = Map.empty, trace = []\<rparr> :: (string, int list) world))
      [''ab'', ''abc'', ''ab'']) = Inr [[2], [3], [2]]
   \<and> invocations (new_events \<lparr>store = Map.empty, trace = []\<rparr>
        (snd (wrapped len_pipe [''ab'', ''abc'', ''ab''] \<lparr>store = Map.empty, trace = []\<rparr>)))
      = [[''ab'', ''abc'', ''ab'']]
   \<and> trace (snd (wrapped len_pipe [''ab'', ''abc'', ''ab''] \<lparr>store = Map.empty, trace = []\<rparr>))
      = [Transform [''ab'', ''abc'', ''ab''],
         SetEntry ''ab'' [2], SetEntry ''abc'' [3], SetEntry ''ab'' [2]]
   \<and> (\<exists>res. fst (wrapped len_pipe [''ab'', ''abc'', ''ab''] \<lparr>store = Map.empty, trace = []\<rparr>)
          = Inr res \<and> res ! 0 = Vec [2] \<and> res ! 2 = Vec [2])"
proof -
  let ?w = "\<lparr>store = Map.empty, trace = []\<rparr> :: (string, int list) world"
  let ?X = "[''ab'', ''abc'', ''ab'']"
  have h0: "store ?w ''ab'' = None" by simp
  have h1: "len_pipe (misses (store ?w) ?X) = Inr [[2], [3], [2]]"
    by (simp add: len_pipe_def pipeline_of_def misses_def)
  have h2: "length [[2], [3], [2::int]] = length (misses (store ?w) ?X)"
    by (simp add: misses_def)
  note t = duplicate_misses_all_forwarded [of ?w "''ab''" len_pipe ?X "[[2], [3], [2]]", OF h0 h1 h2]
  from t have inv: "invocations (new_events ?w (snd (wrapped len_pipe ?X ?w))) = [[''ab'', ''abc'', ''ab'']]"
    by (simp add: misses_def)
  from t have tr: "trace (snd (wrapped len_pipe ?X ?w))
      = [Transform [''ab'', ''abc'', ''ab''], SetEntry ''ab'' [2], SetEntry ''abc'' [3], SetEntry ''ab'' [2]]"
    by (simp add: misses_def)
  from t obtain res where r: "fst (wrapped len_pipe ?X ?w) = Inr res"
    and nth: "\<forall>i<length ?X. ?X ! i = ''ab''
              \<longrightarrow> res ! i = Vec ([[2], [3], [2]] ! length (misses (store ?w) (take i ?X)))"
    by blast
  have "res ! 0 = Vec [2]" using nth [rule_format, of 0] by (simp add: misses_def)
  moreover have "res ! 2 = Vec [2]" using nth [rule_format, of 2] by (simp add: misses_def)
  ultimately show ?thesis using h0 h1 inv tr r by simp
qed

subsection \<open>Pipelines whose vector depends only on the item\<close>

lemma call_of_pipeline:
  assumes "method (misses (store cache) X) = Inr (map f (misses (store cache) X))"
    and "produced_by f (store cache)"
  shows "fst (wrapped method X cache) = Inr (map (\<lambda>x. Vec (f x)) X)"
    and "store (snd (wrapped method X cache))
      = (store cache)(misses (store cache) X [\<mapsto>] map f (misses (store cache) X))"
proof -
  show "fst (wrapped method X cache) = Inr (map (\<lambda>x. Vec (f x)) X)"
    by (simp add: wrapped_returns [of "method" cache X "map f (misses (store cache) X)", OF assms(1)]
        assemble_pipeline [OF assms(2)])
  show "store (snd (wrapped method X cache))
      = (store cache)(misses (store cache) X [\<mapsto>] map f (misses (store cache) X))"
    by (rule store_after_call [of "method" cache X "map f (misses (store cache) X)", OF assms(1)])
qed

lemma store_after_pipeline:
  assumes "method (misses (store cache) X) = Inr (map f (misses (store cache) X))"
    and "produced_by f (store cache)"
  shows "produced_by f (store (snd (wrapped method X cache)))"
    and "misses (store (snd (wrapped method X cache))) X = []"
proof -
  let ?s' = "store (snd (wrapped method X cache))"
  have s': "?s' = (store cache)(misses (store cache) X [\<mapsto>] map f (misses (store cache) X))"
    by (rule call_of_pipeline(2) [of "method" cache X f, OF assms])
  show "produced_by f ?s'"
    unfolding s' by (rule produced_by_upds [OF assms(2)])
  have "?s' x \<noteq> None" if "x \<in> set X" for x
  proof (cases "store cache x")
    case None
    then have "x \<in> set (misses (store cache) X)" using that by (simp add: misses_def)
    then show ?thesis unfolding s' by (simp add: map_upds_pipeline)
  next
    case (Some v)
    then show ?thesis unfolding s' by (simp add: map_upds_pipeline)
  qed
  then show "misses ?s' X = []"
    by (auto simp: misses_def filter_empty_conv)
qed

lemma assemble_all_hits:
  "misses s X = [] \<Longrightarrow> produced_by f s \<Longrightarrow> assemble s X out = map (\<lambda>x. Vec (f x)) X"
proof (induction X)
  case Nil
  show ?case by simp
next
  case (Cons x xs)
  from Cons.prems(1) obtain v where v: "s x = Some v"
    by (cases "s x") (auto simp: misses_def)
  then have "v = f x" using Cons.prems(2) by (simp add: produced_by_def)
  moreover have "misses s xs = []" using Cons.prems(1) v by (simp add: misses_Cons_hit)
  ultimately show ?case using v Cons by simp
qed

text \<open>
  C6 as stated fails, for two deterministic pipelines, each starting from an empty store. One
  rejects the empty batch: its first call on \<open>["ab"]\<close> returns \<open>[[2]]\<close>, and the second, in
  which \<open>"ab"\<close> is a hit, raises, because the original \<open>transform\<close> is invoked on the empty
  Miss List. The other gives each item its position in the batch: on \<open>["a", "a"]\<close> the first
  call returns \<open>[[0], [1]]\<close>, the write for the second occurrence overwrites the first, and
  the second call returns \<open>[[1], [1]]\<close>.
\<close>

theorem second_call_differs:
  "fst (wrapped strict_len_pipe [''ab''] \<lparr>store = Map.empty, trace = []\<rparr>) = Inr [Vec [2]]
   \<and> fst (wrapped strict_len_pipe [''ab'']
        (snd (wrapped strict_len_pipe [''ab''] \<lparr>store = Map.empty, trace = []\<rparr>)))
      = Inl ''empty batch''
   \<and> fst (wrapped position_pipe [''a'', ''a''] \<lparr>store = Map.empty, trace = []\<rparr>)
      = Inr [Vec [0], Vec [1]]
   \<and> fst (wrapped position_pipe [''a'', ''a'']
        (snd (wrapped position_pipe [''a'', ''a''] \<lparr>store = Map.empty, trace = []\<rparr>)))
      = Inr [Vec [1], Vec [1]]"
  by (simp add: wrapped_def strict_len_pipe_def position_pipe_def lookup_or_todo_def)

text \<open>
  C6, amended. Let the wrapped pipeline return, on the list of items \<open>X\<close>, one vector per
  item that depends only on the item (\<open>f\<close> of the item), and let it return without raising
  on the empty batch. Then, starting from an empty store, the second of two calls on \<open>X\<close>
  returns the same array as the first, namely \<open>f\<close> of each item in input order; at the second
  call no item is a miss, and the original \<open>transform\<close> receives the empty batch.
\<close>

theorem second_call_served_from_store:
  assumes "store cache = Map.empty"
    and "method X = Inr (map f X)"
    and "method [] = Inr out0"
  shows "fst (wrapped method X (snd (wrapped method X cache))) = fst (wrapped method X cache)
    \<and> fst (wrapped method X cache) = Inr (map (\<lambda>x. Vec (f x)) X)
    \<and> misses (store (snd (wrapped method X cache))) X = []
    \<and> invocations (new_events (snd (wrapped method X cache))
        (snd (wrapped method X (snd (wrapped method X cache))))) = [[]]"
proof -
  let ?c1 = "snd (wrapped method X cache)"
  have p0: "produced_by f (store cache)"
    using assms(1) by (simp add: produced_by_empty)
  have m0: "misses (store cache) X = X"
    using assms(1) by (simp add: misses_def)
  have h0: "method (misses (store cache) X) = Inr (map f (misses (store cache) X))"
    unfolding m0 by (rule assms(2))
  have p1: "produced_by f (store ?c1)"
    by (rule store_after_pipeline(1) [of "method" cache X f, OF h0 p0])
  have m1: "misses (store ?c1) X = []"
    by (rule store_after_pipeline(2) [of "method" cache X f, OF h0 p0])
  have r1: "fst (wrapped method X cache) = Inr (map (\<lambda>x. Vec (f x)) X)"
    by (rule call_of_pipeline(1) [of "method" cache X f, OF h0 p0])
  have h1: "method (misses (store ?c1) X) = Inr out0"
    unfolding m1 by (rule assms(3))
  have "fst (wrapped method X ?c1) = Inr (assemble (store ?c1) X out0)"
    by (simp add: wrapped_returns [of "method" ?c1 X out0, OF h1])
  then have r2: "fst (wrapped method X ?c1) = Inr (map (\<lambda>x. Vec (f x)) X)"
    by (simp add: assemble_all_hits [OF m1 p1])
  have i2: "invocations (new_events ?c1 (snd (wrapped method X ?c1))) = [[]]"
    using invocations_of_call [of ?c1 "method" X] m1 by simp
  show ?thesis using r1 r2 m1 i2 by simp
qed

theorem second_call_served_from_store_witness:
  "store (\<lparr>store = Map.empty, trace = []\<rparr> :: (string, int list) world) = Map.empty
   \<and> len_pipe [''ab'', ''abc'', ''ab''] = Inr [[2], [3], [2]]
   \<and> len_pipe [] = Inr []
   \<and> fst (wrapped len_pipe [''ab'', ''abc'', ''ab'']
        (snd (wrapped len_pipe [''ab'', ''abc'', ''ab''] \<lparr>store = Map.empty, trace = []\<rparr>)))
      = Inr [Vec [2], Vec [3], Vec [2]]
   \<and> fst (wrapped len_pipe [''ab'', ''abc'', ''ab''] \<lparr>store = Map.empty, trace = []\<rparr>)
      = Inr [Vec [2], Vec [3], Vec [2]]
   \<and> invocations (new_events
        (snd (wrapped len_pipe [''ab'', ''abc'', ''ab''] \<lparr>store = Map.empty, trace = []\<rparr>))
        (snd (wrapped len_pipe [''ab'', ''abc'', ''ab'']
          (snd (wrapped len_pipe [''ab'', ''abc'', ''ab''] \<lparr>store = Map.empty, trace = []\<rparr>)))))
      = [[]]"
proof -
  let ?w = "\<lparr>store = Map.empty, trace = []\<rparr> :: (string, int list) world"
  let ?X = "[''ab'', ''abc'', ''ab'']"
  have h: "store ?w = Map.empty" by simp
  have hX: "len_pipe ?X = Inr (map (\<lambda>x. [int (length x)]) ?X)"
    by (simp add: len_pipe_def pipeline_of_def)
  have h0: "len_pipe [] = Inr []"
    by (simp add: len_pipe_def pipeline_of_def)
  note t = second_call_served_from_store
    [of ?w len_pipe ?X "\<lambda>x. [int (length x)]" "[]", OF h hX h0]
  show ?thesis using t h hX h0 by simp
qed

text \<open>
  C1 as stated fails. With \<open>"ab"\<close> stored as \<open>[99]\<close> the wrapped \<open>transform\<close> on
  \<open>["ab", "abc"]\<close> returns the stored vector at index \<open>0\<close>, \<open>[[99], [3]]\<close>, where the
  uncached pipeline produces \<open>[[2], [3]]\<close>. And with a pipeline that rejects the empty batch,
  the wrapped \<open>transform\<close> on the all-hit input \<open>["ab"]\<close> raises, because the original
  \<open>transform\<close> is invoked on the empty Miss List, where the uncached pipeline returns
  \<open>[[2]]\<close>.
\<close>

theorem wrapped_differs_from_uncached:
  "len_pipe [''ab'', ''abc''] = Inr [[2], [3]]
   \<and> fst (wrapped len_pipe [''ab'', ''abc''] \<lparr>store = [''ab'' \<mapsto> [99]], trace = []\<rparr>)
      = Inr [Vec [99], Vec [3]]
   \<and> strict_len_pipe [''ab''] = Inr [[2]]
   \<and> fst (wrapped strict_len_pipe [''ab''] \<lparr>store = [''ab'' \<mapsto> [2]], trace = []\<rparr>)
      = Inl ''empty batch''"
  by (simp add: wrapped_def len_pipe_def pipeline_of_def strict_len_pipe_def lookup_or_todo_def)

text \<open>
  C1, amended. Let the uncached pipeline produce, for the list of items \<open>X\<close>, one vector
  per item that depends only on the item (\<open>f\<close> of the item); let it return the same per-item
  vectors, without raising, on the Miss List of the call (the empty list when every item is a
  hit); and let every entry present in the store at call start hold the pipeline's vector for
  its key. Then the wrapped \<open>transform\<close> returns the uncached pipeline's output on \<open>X\<close>: one
  vector per item, the vector at index \<open>i\<close> being that of the item at index \<open>i\<close>, whichever
  items were hits. The store after the call again holds only such entries.
\<close>

theorem wrapped_agrees_with_uncached:
  assumes "method X = Inr (map f X)"
    and "method (misses (store cache) X) = Inr (map f (misses (store cache) X))"
    and "produced_by f (store cache)"
  shows "\<exists>out. method X = Inr out
      \<and> fst (wrapped method X cache) = Inr (map Vec out)
      \<and> length (map Vec out) = length X
      \<and> (\<forall>i<length X. out ! i = f (X ! i))
      \<and> produced_by f (store (snd (wrapped method X cache)))"
proof -
  have "fst (wrapped method X cache) = Inr (map Vec (map f X))"
    by (simp add: call_of_pipeline(1) [of "method" cache X f, OF assms(2) assms(3)] comp_def)
  moreover have "length (map Vec (map f X)) = length X" by simp
  moreover have "\<forall>i<length X. map f X ! i = f (X ! i)" by simp
  moreover have "produced_by f (store (snd (wrapped method X cache)))"
    by (rule store_after_pipeline(1) [of "method" cache X f, OF assms(2) assms(3)])
  ultimately show ?thesis using assms(1) by blast
qed

theorem wrapped_agrees_with_uncached_witness:
  "len_pipe [''ab'', ''abc'', ''ab''] = Inr [[2], [3], [2]]
   \<and> len_pipe (misses (store (\<lparr>store = [''ab'' \<mapsto> [2]], trace = []\<rparr> :: (string, int list) world))
        [''ab'', ''abc'', ''ab'']) = Inr [[3]]
   \<and> produced_by (\<lambda>x. [int (length x)]) (store \<lparr>store = [''ab'' \<mapsto> [2]], trace = []\<rparr>)
   \<and> fst (wrapped len_pipe [''ab'', ''abc'', ''ab''] \<lparr>store = [''ab'' \<mapsto> [2]], trace = []\<rparr>)
      = Inr [Vec [2], Vec [3], Vec [2]]"
proof -
  let ?w = "\<lparr>store = [''ab'' \<mapsto> [2]], trace = []\<rparr> :: (string, int list) world"
  let ?X = "[''ab'', ''abc'', ''ab'']"
  let ?f = "\<lambda>x :: string. [int (length x)]"
  have hX: "len_pipe ?X = Inr (map ?f ?X)"
    by (simp add: len_pipe_def pipeline_of_def)
  have hM: "len_pipe (misses (store ?w) ?X) = Inr (map ?f (misses (store ?w) ?X))"
    by (simp add: len_pipe_def pipeline_of_def)
  have hP: "produced_by ?f (store ?w)"
    by (simp add: produced_by_def)
  note t = wrapped_agrees_with_uncached [of len_pipe ?X ?f ?w, OF hX hM hP]
  from t obtain out where o: "len_pipe ?X = Inr out"
    and r: "fst (wrapped len_pipe ?X ?w) = Inr (map Vec out)"
    by blast
  from o have "out = [[2], [3], [2]]"
    by (simp add: len_pipe_def pipeline_of_def)
  moreover have "len_pipe (misses (store ?w) ?X) = Inr [[3]]"
    by (simp add: len_pipe_def pipeline_of_def misses_def)
  ultimately show ?thesis using hP o r by simp
qed

subsection \<open>Rebinding \<open>transform\<close> on the pipeline object\<close>

text \<open>A closure built by \<open>run_cached\<close> is never the callable it wraps.\<close>

lemma run_cached_fresh: "RunCached name c \<noteq> c"
  by (induction c arbitrary: name) auto

text \<open>
  C10. \<open>cached(name, pipeline)\<close> returns the reference it was given, and changes the heap only
  at that object: its other attributes are as before and every other object is untouched. The
  object's \<open>transform\<close> attribute now holds the caching closure around the previous callable,
  which differs from that callable, so the attribute no longer yields the uncached
  \<open>transform\<close>; and for a plain pipeline, calling \<open>transform\<close> through the object runs
  \<open>wrapped\<close> on the store of the directory \<open>name\<close>.
\<close>

theorem cached_rebinds_transform_in_place:
  "fst (cached name p h) = p
   \<and> attributes (snd (cached name p h) p) = attributes (h p)
   \<and> (\<forall>q. q \<noteq> p \<longrightarrow> snd (cached name p h) q = h q)
   \<and> transform (snd (cached name p h) p) = RunCached name (transform (h p))
   \<and> transform (snd (cached name p h) p) \<noteq> transform (h p)
   \<and> (\<forall>m. transform (h p) = Original m \<longrightarrow>
        call (transform (snd (cached name p h) (fst (cached name p h)))) X (dirs, tr) =
          (case wrapped m X \<lparr>store = dirs name, trace = tr\<rparr> of
             (r, w) \<Rightarrow> Some (r, dirs(name := store w), trace w)))"
  by (simp add: cached_def run_cached_def run_cached_fresh)

theorem cached_rebinds_transform_in_place_witness:
  "fst (cached ''sentence-enc'' 0
      (\<lambda>r. \<lparr>transform = Original len_pipe, attributes = [''model'' \<mapsto> ''all-MiniLM-L6-v2'']\<rparr>)) = 0
   \<and> transform (snd (cached ''sentence-enc'' 0
      (\<lambda>r. \<lparr>transform = Original len_pipe, attributes = [''model'' \<mapsto> ''all-MiniLM-L6-v2'']\<rparr>)) 0)
     = RunCached ''sentence-enc'' (Original len_pipe)
   \<and> attributes (snd (cached ''sentence-enc'' 0
      (\<lambda>r. \<lparr>transform = Original len_pipe, attributes = [''model'' \<mapsto> ''all-MiniLM-L6-v2'']\<rparr>)) 0)
        ''model'' = Some ''all-MiniLM-L6-v2''
   \<and> map_option fst (call (transform (snd (cached ''sentence-enc'' 0
      (\<lambda>r. \<lparr>transform = Original len_pipe, attributes = [''model'' \<mapsto> ''all-MiniLM-L6-v2'']\<rparr>)) 0))
        [''ab''] (\<lambda>d. Map.empty, [])) = Some (Inr [Vec [2]])
   \<and> map_option (\<lambda>r. snd (snd r)) (call (transform (snd (cached ''sentence-enc'' 0
      (\<lambda>r. \<lparr>transform = Original len_pipe, attributes = [''model'' \<mapsto> ''all-MiniLM-L6-v2'']\<rparr>)) 0))
        [''ab''] (\<lambda>d. Map.empty, [])) = Some [Transform [''ab''], SetEntry ''ab'' [2]]"
proof -
  let ?h = "(\<lambda>r. \<lparr>transform = Original len_pipe, attributes = [''model'' \<mapsto> ''all-MiniLM-L6-v2'']\<rparr>)
      :: (string, int list, string, string) heap"
  note t = cached_rebinds_transform_in_place
    [of "''sentence-enc''" 0 ?h "[''ab'']" "\<lambda>d. Map.empty" "[]"]
  have w: "wrapped len_pipe [''ab''] \<lparr>store = Map.empty, trace = []\<rparr>
      = (Inr [Vec [2]], \<lparr>store = [''ab'' \<mapsto> [2]], trace = [Transform [''ab''], SetEntry ''ab'' [2]]\<rparr>)"
    by (simp add: wrapped_def len_pipe_def pipeline_of_def lookup_or_todo_def)
  from t have c: "call (transform (snd (cached ''sentence-enc'' 0 ?h) (fst (cached ''sentence-enc'' 0 ?h))))
      [''ab''] (\<lambda>d. Map.empty, []) =
        (case wrapped len_pipe [''ab''] \<lparr>store = Map.empty, trace = []\<rparr> of
             (r, w) \<Rightarrow> Some (r, (\<lambda>d. Map.empty)(''sentence-enc'' := store w), trace w))"
    by simp
  from t have f: "fst (cached ''sentence-enc'' 0 ?h) = 0" by blast
  from t have a: "attributes (snd (cached ''sentence-enc'' 0 ?h) 0) = attributes (?h 0)" by blast
  from t have r: "transform (snd (cached ''sentence-enc'' 0 ?h) 0) = RunCached ''sentence-enc'' (transform (?h 0))"
    by blast
  show ?thesis
    using c unfolding f w by (simp add: f a r)
qed

end
